theory Spec2Isabelle
  imports Complex_Main
begin

section \<open>Startup lock for CLIProxy (src/unnamed/part_001)\<close>

text \<open>
  The lock file holds a JSON object with the owner's PID, a timestamp and a host name.
  \<^verbatim>\<open>JSON.parse\<close>, the file system, the clock and \<^verbatim>\<open>process.kill\<close> are outside the
  module; what they answer during one acquisition attempt is collected in the record
  \<open>world\<close>. A lock file that exists either parses to a \<open>LockData\<close> (\<open>Holds\<close>) or makes
  the \<^verbatim>\<open>try\<close> block around \<^verbatim>\<open>readFileSync\<close>/\<^verbatim>\<open>JSON.parse\<close> throw (\<open>Unreadable\<close>).
  A parsed lock is taken as the interface \<^verbatim>\<open>LockData\<close> types it: \<^verbatim>\<open>pid\<close> and \<^verbatim>\<open>timestamp\<close>
  are numbers (milliseconds for the timestamp). The lock file lives inside the lock
  directory, so it can only exist when the directory does. A process counts as running when
  the signal-0 probe \<^verbatim>\<open>process.kill(pid, 0)\<close> returns without throwing, which is the test
  the module itself makes.
\<close>

record LockData =
  pid :: int
  timestamp :: int
  hostname :: string

record LockResult =
  acquired :: bool
  lockPath :: string

datatype lock_file = Absent | Unreadable | Holds LockData

datatype lock_fs = NoDir | Dir lock_file

datatype lock_error =
    FsError             \<comment> \<open>thrown by \<^verbatim>\<open>mkdirSync\<close>, or by \<^verbatim>\<open>writeFileSync\<close> with a code other than EEXIST\<close>
  | AcquireFailed int   \<comment> \<open>\<^verbatim>\<open>Failed to acquire startup lock after ${retries} attempts\<close>\<close>

record world =
  clock :: int                  \<comment> \<open>\<^verbatim>\<open>Date.now()\<close> read by \<^verbatim>\<open>isLockStale\<close>\<close>
  clockWrite :: int             \<comment> \<open>\<^verbatim>\<open>Date.now()\<close> read when the new lock data is built\<close>
  running :: "int \<Rightarrow> bool"       \<comment> \<open>\<^verbatim>\<open>process.kill(pid, 0)\<close> returns without throwing\<close>
  selfPid :: int                \<comment> \<open>\<^verbatim>\<open>process.pid\<close>\<close>
  selfHost :: string            \<comment> \<open>\<^verbatim>\<open>require('os').hostname()\<close>\<close>
  lockPathOf :: string          \<comment> \<open>\<^verbatim>\<open>getLockPath()\<close>\<close>
  files :: lock_fs              \<comment> \<open>the lock directory and file when the attempt starts\<close>
  mkdirThrows :: bool           \<comment> \<open>\<^verbatim>\<open>mkdirSync\<close> throws\<close>
  unlinkThrows :: bool          \<comment> \<open>\<^verbatim>\<open>unlinkSync\<close> throws (the error is ignored, the file stays)\<close>
  rival :: "LockData option"    \<comment> \<open>a lock another process creates between our check and our write\<close>
  writeThrows :: bool           \<comment> \<open>\<^verbatim>\<open>writeFileSync\<close> throws with a code other than EEXIST\<close>

definition LOCK_TIMEOUT_MS :: int where
  "LOCK_TIMEOUT_MS = 10000"

definition isLockStale :: "world \<Rightarrow> LockData \<Rightarrow> bool" where
  "isLockStale w lockData =
     (if clock w - timestamp lockData > LOCK_TIMEOUT_MS then True
      else if running w (pid lockData) then False
      else True)"

text \<open>The \<^verbatim>\<open>try { fs.unlinkSync(lockPath) } catch { }\<close> step: what is left of the file.\<close>

definition removeLock :: "world \<Rightarrow> lock_file \<Rightarrow> lock_file" where
  "removeLock w f = (if unlinkThrows w then f else Absent)"

text \<open>
  The exclusive creation (\<^verbatim>\<open>flag: 'wx'\<close>) of the lock file, given what our own check and
  removal left: EEXIST gives \<open>acquired = False\<close>, any other error is rethrown.
\<close>

definition createLock :: "world \<Rightarrow> lock_file \<Rightarrow> (lock_error + LockResult) \<times> lock_fs" where
  "createLock w f =
     (let seen = (case f of
                    Absent \<Rightarrow> (case rival w of None \<Rightarrow> Absent | Some r \<Rightarrow> Holds r)
                  | _ \<Rightarrow> f)
      in if seen \<noteq> Absent
         then (Inr \<lparr>acquired = False, lockPath = lockPathOf w\<rparr>, Dir seen)
         else if writeThrows w then (Inl FsError, Dir Absent)
         else (Inr \<lparr>acquired = True, lockPath = lockPathOf w\<rparr>,
               Dir (Holds \<lparr>pid = selfPid w, timestamp = clockWrite w, hostname = selfHost w\<rparr>)))"

definition tryAcquireLockOnce :: "world \<Rightarrow> (lock_error + LockResult) \<times> lock_fs" where
  "tryAcquireLockOnce w =
     (case files w of
        NoDir \<Rightarrow> if mkdirThrows w then (Inl FsError, NoDir) else createLock w Absent
      | Dir Absent \<Rightarrow> createLock w Absent
      | Dir Unreadable \<Rightarrow> createLock w (removeLock w Unreadable)
      | Dir (Holds lockData) \<Rightarrow>
          if \<not> isLockStale w lockData
          then (Inr \<lparr>acquired = False, lockPath = lockPathOf w\<rparr>, files w)
          else createLock w (removeLock w (Holds lockData)))"

text \<open>
  The \<^verbatim>\<open>release\<close> closure of an acquired lock: the file is removed only while it still
  names this process.
\<close>

definition release :: "world \<Rightarrow> lock_fs \<Rightarrow> lock_fs" where
  "release w fs =
     (case fs of
        Dir (Holds currentLock) \<Rightarrow>
          if pid currentLock = selfPid w then Dir (removeLock w (Holds currentLock)) else fs
      | _ \<Rightarrow> fs)"

record lock_options =
  retries :: "int option"
  retryInterval :: "int option"
  verbose :: "bool option"

text \<open>
  The retry loop of \<^verbatim>\<open>acquireStartupLock\<close>. Other processes and the clock move between
  attempts, so attempt \<open>i\<close> runs in the world \<open>ws i\<close>, any sequence of worlds. The loop returns
  what the function returns or throws, the number of calls of \<open>tryAcquireLockOnce\<close> it made
  and the delays it slept, in order.
\<close>

function acquireLoop ::
  "(nat \<Rightarrow> world) \<Rightarrow> int \<Rightarrow> int \<Rightarrow> nat \<Rightarrow> int list \<Rightarrow> (lock_error + LockResult) \<times> nat \<times> int list"
where
  "acquireLoop ws n interval attempt slept =
     (if int attempt \<le> n then
        (case fst (tryAcquireLockOnce (ws attempt)) of
           Inl e \<Rightarrow> (Inl e, Suc attempt, slept)
         | Inr result \<Rightarrow>
             if acquired result then (Inr result, Suc attempt, slept)
             else acquireLoop ws n interval (Suc attempt)
                    (if int attempt < n then slept @ [interval] else slept))
      else (Inl (AcquireFailed n), attempt, slept))"
  by pat_completeness auto
termination
  by (relation "measure (\<lambda>(ws, n, interval, attempt, slept). nat (n + 1 - int attempt))") auto

definition acquireStartupLock ::
  "lock_options option \<Rightarrow> (nat \<Rightarrow> world) \<Rightarrow> (lock_error + LockResult) \<times> nat \<times> int list" where
  "acquireStartupLock options ws =
     (let n = (case options of None \<Rightarrow> 20
                | Some opts \<Rightarrow> (case retries opts of None \<Rightarrow> 20 | Some r \<Rightarrow> r));
          interval = (case options of None \<Rightarrow> 250
                | Some opts \<Rightarrow> (case retryInterval opts of None \<Rightarrow> 250 | Some i \<Rightarrow> i))
      in acquireLoop ws n interval 0 [])"

text \<open>Whether the attempt made in a world obtains the lock.\<close>

definition obtains_lock :: "world \<Rightarrow> bool" where
  "obtains_lock w = (case fst (tryAcquireLockOnce w) of Inl e \<Rightarrow> False | Inr r \<Rightarrow> acquired r)"

text \<open>
  A concrete world: another process (PID 4242, probed as running) wrote the lock 4 seconds
  before the clock reading.
\<close>

definition held_lock :: LockData where
  "held_lock = \<lparr>pid = 4242, timestamp = 1000, hostname = ''devbox''\<rparr>"

definition held_world :: world where
  "held_world =
     \<lparr>clock = 5000, clockWrite = 5001, running = (\<lambda>p. p = 4242), selfPid = 77,
      selfHost = ''devbox'', lockPathOf = ''.startup.lock'', files = Dir (Holds held_lock),
      mkdirThrows = False, unlinkThrows = False, rival = None, writeThrows = False\<rparr>"

section \<open>Properties of the startup lock\<close>

lemma createLock_present:
  "f \<noteq> Absent \<Longrightarrow> fst (createLock w f) = Inr \<lparr>acquired = False, lockPath = lockPathOf w\<rparr>"
  by (cases f) (simp_all add: createLock_def)

lemma tryAcquire_held:
  assumes "files w = Dir (Holds ld)" and "\<not> isLockStale w ld"
  shows "fst (tryAcquireLockOnce w) = Inr \<lparr>acquired = False, lockPath = lockPathOf w\<rparr>"
  using assms by (simp add: tryAcquireLockOnce_def)

lemma isLockStale_iff:
  "isLockStale w ld \<longleftrightarrow> clock w - timestamp ld > 10000 \<or> \<not> running w (pid ld)"
  by (simp add: isLockStale_def LOCK_TIMEOUT_MS_def)

declare acquireLoop.simps [simp del]

lemma acquireLoop_stop:
  "\<not> int attempt \<le> n \<Longrightarrow>
     acquireLoop ws n interval attempt slept = (Inl (AcquireFailed n), attempt, slept)"
  by (subst acquireLoop.simps) simp

lemma acquireLoop_throw:
  "int attempt \<le> n \<Longrightarrow> fst (tryAcquireLockOnce (ws attempt)) = Inl e \<Longrightarrow>
     acquireLoop ws n interval attempt slept = (Inl e, Suc attempt, slept)"
  by (subst acquireLoop.simps) simp

lemma acquireLoop_got:
  "int attempt \<le> n \<Longrightarrow> fst (tryAcquireLockOnce (ws attempt)) = Inr result \<Longrightarrow>
   acquired result \<Longrightarrow>
     acquireLoop ws n interval attempt slept = (Inr result, Suc attempt, slept)"
  by (subst acquireLoop.simps) simp

lemma acquireLoop_retry:
  "int attempt \<le> n \<Longrightarrow> fst (tryAcquireLockOnce (ws attempt)) = Inr result \<Longrightarrow>
   \<not> acquired result \<Longrightarrow>
     acquireLoop ws n interval attempt slept
       = acquireLoop ws n interval (Suc attempt)
           (if int attempt < n then slept @ [interval] else slept)"
  by (subst acquireLoop.simps) simp

lemma acquireLoop_calls:
  "fst (snd (acquireLoop ws n interval attempt slept)) \<le> max attempt (nat (n + 1))"
proof (induction ws n interval attempt slept rule: acquireLoop.induct)
  case (1 ws n interval attempt slept)
  show ?case
  proof (cases "int attempt \<le> n")
    case False
    then show ?thesis by (simp add: acquireLoop_stop)
  next
    case True
    note le = this
    then have bound: "Suc attempt \<le> nat (n + 1)" by linarith
    show ?thesis
    proof (cases "fst (tryAcquireLockOnce (ws attempt))")
      case (Inl e)
      show ?thesis using bound by (simp add: acquireLoop_throw [where ws = ws, OF le Inl])
    next
      case (Inr result)
      show ?thesis
      proof (cases "acquired result")
        case True
        show ?thesis using bound by (simp add: acquireLoop_got [where ws = ws, OF le Inr True])
      next
        case False
        have "fst (snd (acquireLoop ws n interval (Suc attempt)
                 (if int attempt < n then slept @ [interval] else slept)))
              \<le> max (Suc attempt) (nat (n + 1))"
          using "1.IH" [OF le Inr False] .
        then show ?thesis
          unfolding acquireLoop_retry [where ws = ws, OF le Inr False] using bound by linarith
      qed
    qed
  qed
qed

lemma acquireLoop_slept:
  "length (snd (snd (acquireLoop ws n interval attempt slept)))
     \<le> length slept + (nat n - attempt)
   \<and> set (snd (snd (acquireLoop ws n interval attempt slept))) \<subseteq> set slept \<union> {interval}"
proof (induction ws n interval attempt slept rule: acquireLoop.induct)
  case (1 ws n interval attempt slept)
  show ?case
  proof (cases "int attempt \<le> n")
    case False
    then show ?thesis by (auto simp add: acquireLoop_stop)
  next
    case True
    note le = this
    show ?thesis
    proof (cases "fst (tryAcquireLockOnce (ws attempt))")
      case (Inl e)
      show ?thesis by (auto simp add: acquireLoop_throw [where ws = ws, OF le Inl])
    next
      case (Inr result)
      show ?thesis
      proof (cases "acquired result")
        case True
        show ?thesis by (auto simp add: acquireLoop_got [where ws = ws, OF le Inr True])
      next
        case False
        let ?s = "if int attempt < n then slept @ [interval] else slept"
        let ?out = "snd (snd (acquireLoop ws n interval (Suc attempt) ?s))"
        have ih: "length ?out \<le> length ?s + (nat n - Suc attempt)"
          and ih': "set ?out \<subseteq> set ?s \<union> {interval}"
          using "1.IH" [OF le Inr False] by simp_all
        have len: "length ?s + (nat n - Suc attempt) \<le> length slept + (nat n - attempt)"
        proof (cases "int attempt < n")
          case True
          then have "Suc (nat n - Suc attempt) = nat n - attempt" by linarith
          with True show ?thesis by simp
        next
          case False
          then show ?thesis by simp
        qed
        have sub: "set ?s \<union> {interval} \<subseteq> set slept \<union> {interval}"
          by (cases "int attempt < n") auto
        have "length ?out \<le> length slept + (nat n - attempt)"
          using ih len by (rule le_trans)
        moreover have "set ?out \<subseteq> set slept \<union> {interval}"
          using ih' sub by (rule subset_trans)
        ultimately show ?thesis
          unfolding acquireLoop_retry [where ws = ws, OF le Inr False] by simp
      qed
    qed
  qed
qed

lemma acquireLoop_result:
  "(\<forall>r. fst (acquireLoop ws n interval attempt slept) = Inr r \<longrightarrow> acquired r)
   \<and> ((\<forall>i. attempt \<le> i \<and> int i \<le> n \<longrightarrow> \<not> obtains_lock (ws i))
        \<longrightarrow> (\<exists>e. fst (acquireLoop ws n interval attempt slept) = Inl e))"
proof (induction ws n interval attempt slept rule: acquireLoop.induct)
  case (1 ws n interval attempt slept)
  show ?case
  proof (cases "int attempt \<le> n")
    case False
    then show ?thesis by (simp add: acquireLoop_stop)
  next
    case True
    note le = this
    show ?thesis
    proof (cases "fst (tryAcquireLockOnce (ws attempt))")
      case (Inl e)
      show ?thesis by (simp add: acquireLoop_throw [where ws = ws, OF le Inl])
    next
      case (Inr result)
      show ?thesis
      proof (cases "acquired result")
        case True
        have "obtains_lock (ws attempt)"
          using Inr True by (simp add: obtains_lock_def)
        with le show ?thesis
          by (auto simp add: acquireLoop_got [where ws = ws, OF le Inr True] True)
      next
        case False
        show ?thesis
          unfolding acquireLoop_retry [where ws = ws, OF le Inr False]
          using "1.IH" [OF le Inr False] by (auto simp: Suc_le_eq)
      qed
    qed
  qed
qed

lemma acquireLoop_all_refused:
  "(\<forall>i. attempt \<le> i \<and> int i \<le> n \<longrightarrow>
       (\<exists>r. fst (tryAcquireLockOnce (ws i)) = Inr r \<and> \<not> acquired r))
   \<longrightarrow> acquireLoop ws n interval attempt slept
         = (Inl (AcquireFailed n), max attempt (nat (n + 1)),
            slept @ replicate (nat n - attempt) interval)"
proof (induction ws n interval attempt slept rule: acquireLoop.induct)
  case (1 ws n interval attempt slept)
  show ?case
  proof (cases "int attempt \<le> n")
    case False
    then have "nat n - attempt = 0" and "max attempt (nat (n + 1)) = attempt"
      by linarith+
    with False show ?thesis by (simp add: acquireLoop_stop)
  next
    case True
    note le = this
    show ?thesis
    proof
      assume all: "\<forall>i. attempt \<le> i \<and> int i \<le> n \<longrightarrow>
                     (\<exists>r. fst (tryAcquireLockOnce (ws i)) = Inr r \<and> \<not> acquired r)"
      then obtain r where r: "fst (tryAcquireLockOnce (ws attempt)) = Inr r" "\<not> acquired r"
        using le by blast
      let ?s = "if int attempt < n then slept @ [interval] else slept"
      have rest: "\<forall>i. Suc attempt \<le> i \<and> int i \<le> n \<longrightarrow>
                     (\<exists>r. fst (tryAcquireLockOnce (ws i)) = Inr r \<and> \<not> acquired r)"
        using all by (simp add: Suc_le_eq)
      have ih: "acquireLoop ws n interval (Suc attempt) ?s
                = (Inl (AcquireFailed n), max (Suc attempt) (nat (n + 1)),
                   ?s @ replicate (nat n - Suc attempt) interval)"
        using "1.IH" [OF le r] rest by blast
      have m: "max (Suc attempt) (nat (n + 1)) = max attempt (nat (n + 1))"
        using le by linarith
      have sl: "?s @ replicate (nat n - Suc attempt) interval
                = slept @ replicate (nat n - attempt) interval"
      proof (cases "int attempt < n")
        case True
        then have "nat n - attempt = Suc (nat n - Suc attempt)" by linarith
        with True show ?thesis by simp
      next
        case False
        with le have "nat n - attempt = 0" and "nat n - Suc attempt = 0" by linarith+
        with False show ?thesis by simp
      qed
      show "acquireLoop ws n interval attempt slept
            = (Inl (AcquireFailed n), max attempt (nat (n + 1)),
               slept @ replicate (nat n - attempt) interval)"
        unfolding acquireLoop_retry [where ws = ws, OF le r] ih m sl ..
    qed
  qed
qed

text \<open>
  C10. A single acquisition attempt returns \<open>acquired = False\<close> whenever a parseable lock
  file exists that is not stale (whichever process wrote it, so in particular another one);
  a lock is stale exactly when its timestamp is more than 10000 ms older than the clock or
  the signal-0 probe of its PID finds no running process; and \<open>acquireStartupLock\<close> with
  default options calls \<open>tryAcquireLockOnce\<close> at most 21 times, sleeps at most 20 times and
  always 250 ms, returns only an acquired lock, throws when no attempt obtains the lock, and
  when all 21 attempts are refused it throws the "Failed to acquire" error after exactly
  21 attempts and 20 sleeps of 250 ms.
\<close>

theorem startup_lock_contract:
  "(files w = Dir (Holds ld) \<and> \<not> isLockStale w ld
      \<longrightarrow> (\<exists>r. fst (tryAcquireLockOnce w) = Inr r \<and> \<not> acquired r)
          \<and> snd (tryAcquireLockOnce w) = files w)
   \<and> (isLockStale w ld \<longleftrightarrow> clock w - timestamp ld > 10000 \<or> \<not> running w (pid ld))
   \<and> fst (snd (acquireStartupLock None ws)) \<le> 21
   \<and> length (snd (snd (acquireStartupLock None ws))) \<le> 20
   \<and> set (snd (snd (acquireStartupLock None ws))) \<subseteq> {250}
   \<and> (\<forall>r. fst (acquireStartupLock None ws) = Inr r \<longrightarrow> acquired r)
   \<and> ((\<forall>i. i \<le> 20 \<longrightarrow> \<not> obtains_lock (ws i))
        \<longrightarrow> (\<exists>e. fst (acquireStartupLock None ws) = Inl e))
   \<and> ((\<forall>i. i \<le> 20 \<longrightarrow> (\<exists>r. fst (tryAcquireLockOnce (ws i)) = Inr r \<and> \<not> acquired r))
        \<longrightarrow> acquireStartupLock None ws = (Inl (AcquireFailed 20), 21, replicate 20 250))"
proof -
  have def: "acquireStartupLock None ws = acquireLoop ws 20 250 0 []"
    by (simp add: acquireStartupLock_def)
  have held: "files w = Dir (Holds ld) \<and> \<not> isLockStale w ld
      \<longrightarrow> (\<exists>r. fst (tryAcquireLockOnce w) = Inr r \<and> \<not> acquired r)
          \<and> snd (tryAcquireLockOnce w) = files w"
    by (simp add: tryAcquireLockOnce_def)
  have stale: "isLockStale w ld \<longleftrightarrow> clock w - timestamp ld > 10000 \<or> \<not> running w (pid ld)"
    by (rule isLockStale_iff)
  have calls: "fst (snd (acquireStartupLock None ws)) \<le> 21"
    unfolding def using acquireLoop_calls [of ws 20 250 0 "[]"] by simp
  have slept: "length (snd (snd (acquireStartupLock None ws))) \<le> 20"
    and delays: "set (snd (snd (acquireStartupLock None ws))) \<subseteq> {250}"
    unfolding def using acquireLoop_slept [of ws 20 250 0 "[]"] by simp_all
  have got: "\<forall>r. fst (acquireStartupLock None ws) = Inr r \<longrightarrow> acquired r"
    unfolding def using acquireLoop_result [of ws 20 250 0 "[]"] by blast
  have fail: "(\<forall>i. i \<le> 20 \<longrightarrow> \<not> obtains_lock (ws i))
        \<longrightarrow> (\<exists>e. fst (acquireStartupLock None ws) = Inl e)"
    unfolding def using acquireLoop_result [of ws 20 250 0 "[]"] by simp
  have exact: "(\<forall>i. i \<le> 20 \<longrightarrow> (\<exists>r. fst (tryAcquireLockOnce (ws i)) = Inr r \<and> \<not> acquired r))
        \<longrightarrow> acquireStartupLock None ws = (Inl (AcquireFailed 20), 21, replicate 20 250)"
    unfolding def using acquireLoop_all_refused [of 0 20 ws 250 "[]"] by simp
  from held stale calls slept delays got fail exact show ?thesis by blast
qed

theorem startup_lock_contract_witness:
  "files held_world = Dir (Holds held_lock)
   \<and> \<not> isLockStale held_world held_lock
   \<and> fst (tryAcquireLockOnce held_world) = Inr \<lparr>acquired = False, lockPath = ''.startup.lock''\<rparr>
   \<and> snd (tryAcquireLockOnce held_world) = Dir (Holds held_lock)
   \<and> acquireStartupLock None (\<lambda>i. held_world) = (Inl (AcquireFailed 20), 21, replicate 20 250)"
proof -
  have f: "files held_world = Dir (Holds held_lock)"
    by (simp add: held_world_def)
  have fresh: "\<not> isLockStale held_world held_lock"
    by (simp add: isLockStale_def LOCK_TIMEOUT_MS_def held_world_def held_lock_def)
  have once: "tryAcquireLockOnce held_world
              = (Inr \<lparr>acquired = False, lockPath = ''.startup.lock''\<rparr>, Dir (Holds held_lock))"
    using fresh by (simp add: tryAcquireLockOnce_def held_world_def)
  have refused: "\<forall>i. i \<le> (20::nat) \<longrightarrow>
      (\<exists>r. fst (tryAcquireLockOnce ((\<lambda>i. held_world) i)) = Inr r \<and> \<not> acquired r)"
    by (simp add: once)
  show ?thesis
    using startup_lock_contract [of held_world held_lock "\<lambda>i. held_world"] f fresh once refused
    by simp
qed

section \<open>Quota fetcher: fetchAvailableModels (src/src/cliproxy/quota-fetcher.ts)\<close>

subsection \<open>JavaScript values\<close>

text \<open>
  A JavaScript number is a finite value, an infinity or NaN. A parsed JSON document is
  \<open>json\<close>; \<^verbatim>\<open>undefined\<close> is \<open>None\<close> of \<open>json option\<close>. An object is the list of its
  own properties in the order \<^verbatim>\<open>Object.entries\<close> enumerates them.
\<close>

datatype jsnum = Num real | PosInf | NegInf | NaN

datatype json =
    JNull
  | JBool bool
  | JNumber jsnum
  | JString string
  | JArray "json list"
  | JObject "(string \<times> json) list"

datatype thrown = ErrorObject string | OtherValue

text \<open>
  What the module takes from its runtime: \<open>fl\<close> is the rounding of an exact real product
  to a double (\<open>None\<close> when the magnitude overflows the doubles; it is left open, so
  every result below holds for any rounding), \<open>typeErrorMessage\<close> the engine's message
  for a property read on \<^verbatim>\<open>null\<close>, \<open>dateNow\<close> the value of \<^verbatim>\<open>Date.now()\<close>.
\<close>

record runtime =
  fl :: "real \<Rightarrow> real option"
  typeErrorMessage :: string
  dateNow :: int

fun truthy :: "json option \<Rightarrow> bool" where
  "truthy None = False"
| "truthy (Some JNull) = False"
| "truthy (Some (JBool b)) = b"
| "truthy (Some (JNumber n)) = (n \<noteq> Num 0 \<and> n \<noteq> NaN)"
| "truthy (Some (JString s)) = (s \<noteq> [])"
| "truthy (Some (JArray xs)) = True"
| "truthy (Some (JObject kvs)) = True"

text \<open>\<^verbatim>\<open>v === undefined || v === null\<close>: what \<^verbatim>\<open>??\<close> skips.\<close>

fun nullish :: "json option \<Rightarrow> bool" where
  "nullish None = True"
| "nullish (Some JNull) = True"
| "nullish (Some v) = False"

text \<open>
  A property read \<^verbatim>\<open>v.k\<close> for the property names this module uses: it throws a TypeError
  on \<^verbatim>\<open>null\<close>, looks the key up in an object, and is \<^verbatim>\<open>undefined\<close> on a boolean, a
  number, a string and an array (none of the names is an index or \<^verbatim>\<open>length\<close>).
\<close>

fun getProp :: "runtime \<Rightarrow> json \<Rightarrow> string \<Rightarrow> thrown + json option" where
  "getProp rt JNull k = Inl (ErrorObject (typeErrorMessage rt))"
| "getProp rt (JObject kvs) k = Inr (map_of kvs k)"
| "getProp rt v k = Inr None"

definition andThen :: "thrown + 'a \<Rightarrow> ('a \<Rightarrow> thrown + 'b) \<Rightarrow> thrown + 'b" where
  "andThen m f = (case m of Inl e \<Rightarrow> Inl e | Inr a \<Rightarrow> f a)"

fun decimal :: "nat \<Rightarrow> string" where
  "decimal n =
     (if n < 10 then [char_of (48 + n)]
      else decimal (n div 10) @ [char_of (48 + n mod 10)])"

declare decimal.simps [simp del]

text \<open>\<^verbatim>\<open>Object.entries\<close> of a value that passed \<^verbatim>\<open>typeof v === 'object'\<close> and is not null.\<close>

fun entries :: "json \<Rightarrow> (string \<times> json) list" where
  "entries (JObject kvs) = kvs"
| "entries (JArray xs) = zip (map decimal [0..<length xs]) xs"
| "entries v = []"

subsection \<open>Math.round, Math.min, Math.max and the product\<close>

fun Math_round :: "jsnum \<Rightarrow> jsnum" where
  "Math_round (Num x) = Num (of_int \<lfloor>x + 1 / 2\<rfloor>)"
| "Math_round v = v"

fun js_le :: "jsnum \<Rightarrow> jsnum \<Rightarrow> bool" where
  "js_le (Num a) (Num b) = (a \<le> b)"
| "js_le NegInf b = (b \<noteq> NaN)"
| "js_le a PosInf = (a \<noteq> NaN)"
| "js_le a b = False"

definition Math_min :: "jsnum \<Rightarrow> jsnum \<Rightarrow> jsnum" where
  "Math_min a b = (if a = NaN \<or> b = NaN then NaN else if js_le a b then a else b)"

definition Math_max :: "jsnum \<Rightarrow> jsnum \<Rightarrow> jsnum" where
  "Math_max a b = (if a = NaN \<or> b = NaN then NaN else if js_le a b then b else a)"

text \<open>The product of two finite doubles: rounded, or an infinity of the product's sign.\<close>

definition js_mul :: "runtime \<Rightarrow> real \<Rightarrow> real \<Rightarrow> jsnum" where
  "js_mul rt a b =
     (case fl rt (a * b) of
        Some p \<Rightarrow> Num p
      | None \<Rightarrow> if a * b > 0 then PosInf else NegInf)"

subsection \<open>The loop over the models\<close>

record ModelQuota =
  name :: string
  displayName :: "json option"
  percentage :: jsnum
  resetTime :: json

record QuotaResult =
  success :: bool
  models :: "ModelQuota list"
  lastUpdated :: int
  isForbidden :: "bool option"
  error :: "string option"

text \<open>\<^verbatim>\<open>quotaInfo.remainingFraction ?? quotaInfo.remaining_fraction ?? quotaInfo.remaining\<close>\<close>

definition remainingOf :: "runtime \<Rightarrow> json \<Rightarrow> thrown + json option" where
  "remainingOf rt quotaInfo =
     andThen (getProp rt quotaInfo ''remainingFraction'') (\<lambda>a.
       if \<not> nullish a then Inr a
       else andThen (getProp rt quotaInfo ''remaining_fraction'') (\<lambda>b.
         if \<not> nullish b then Inr b
         else getProp rt quotaInfo ''remaining''))"

text \<open>\<^verbatim>\<open>quotaInfo.resetTime || quotaInfo.reset_time || null\<close>\<close>

definition resetTimeOf :: "runtime \<Rightarrow> json \<Rightarrow> thrown + json" where
  "resetTimeOf rt quotaInfo =
     andThen (getProp rt quotaInfo ''resetTime'') (\<lambda>a.
       if truthy a then Inr (case a of Some v \<Rightarrow> v | None \<Rightarrow> JNull)
       else andThen (getProp rt quotaInfo ''reset_time'') (\<lambda>b.
         if truthy b then Inr (case b of Some v \<Rightarrow> v | None \<Rightarrow> JNull)
         else Inr JNull))"

text \<open>\<^verbatim>\<open>Math.max(0, Math.min(100, Math.round(remaining * 100)))\<close>\<close>

definition percentageOf :: "runtime \<Rightarrow> real \<Rightarrow> jsnum" where
  "percentageOf rt remaining =
     Math_max (Num 0) (Math_min (Num 100) (Math_round (js_mul rt remaining 100)))"

text \<open>
  One pass of the loop body for the entry \<open>(modelId, modelData)\<close>: it throws, skips the
  entry (\<^verbatim>\<open>continue\<close>, \<open>None\<close>) or pushes one \<open>ModelQuota\<close>.
\<close>

definition modelQuotaOf :: "runtime \<Rightarrow> string \<times> json \<Rightarrow> thrown + ModelQuota option" where
  "modelQuotaOf rt entry =
     (let modelId = fst entry; modelData = snd entry in
      andThen (getProp rt modelData ''quotaInfo'') (\<lambda>q1.
      andThen (if truthy q1 then Inr q1 else getProp rt modelData ''quota_info'') (\<lambda>quotaInfo.
        case quotaInfo of
          None \<Rightarrow> Inr None
        | Some qi \<Rightarrow>
            if \<not> truthy quotaInfo then Inr None
            else
              andThen (remainingOf rt qi) (\<lambda>remaining.
                case remaining of
                  Some (JNumber (Num r)) \<Rightarrow>
                    andThen (resetTimeOf rt qi) (\<lambda>rtime.
                    andThen (getProp rt modelData ''displayName'') (\<lambda>dn.
                      Inr (Some \<lparr>name = modelId, displayName = dn,
                                 percentage = percentageOf rt r, resetTime = rtime\<rparr>)))
                | _ \<Rightarrow> Inr None))))"

fun collect :: "runtime \<Rightarrow> (string \<times> json) list \<Rightarrow> ModelQuota list \<Rightarrow> thrown + ModelQuota list" where
  "collect rt [] acc = Inr acc"
| "collect rt (entry # rest) acc =
     (case modelQuotaOf rt entry of
        Inl e \<Rightarrow> Inl e
      | Inr None \<Rightarrow> collect rt rest acc
      | Inr (Some m) \<Rightarrow> collect rt rest (acc @ [m]))"

text \<open>\<^verbatim>\<open>if (data.models && typeof data.models === 'object') { for (...) ... }\<close>\<close>

definition isObjectType :: "json option \<Rightarrow> bool" where
  "isObjectType v =
     (case v of Some JNull \<Rightarrow> True | Some (JArray xs) \<Rightarrow> True | Some (JObject kvs) \<Rightarrow> True
      | _ \<Rightarrow> False)"

definition parseModels :: "runtime \<Rightarrow> json \<Rightarrow> thrown + ModelQuota list" where
  "parseModels rt data =
     andThen (getProp rt data ''models'') (\<lambda>ms.
       case ms of
         None \<Rightarrow> Inr []
       | Some v \<Rightarrow> if truthy ms \<and> isObjectType ms then collect rt (entries v) [] else Inr [])"

subsection \<open>The request\<close>

datatype response_body = Body json | BodyThrows thrown

datatype fetch_outcome = FetchThrows thrown | Response nat response_body

definition messageOf :: "thrown \<Rightarrow> string" where
  "messageOf t = (case t of ErrorObject m \<Rightarrow> m | OtherValue \<Rightarrow> ''Unknown error'')"

definition failed :: "runtime \<Rightarrow> bool option \<Rightarrow> string \<Rightarrow> QuotaResult" where
  "failed rt forbidden msg =
     \<lparr>success = False, models = [], lastUpdated = dateNow rt,
      isForbidden = forbidden, error = Some msg\<rparr>"

definition fetchAvailableModels :: "runtime \<Rightarrow> fetch_outcome \<Rightarrow> QuotaResult" where
  "fetchAvailableModels rt outcome =
     (case outcome of
        FetchThrows t \<Rightarrow> failed rt None (messageOf t)
      | Response status body \<Rightarrow>
          if status = 403 then failed rt (Some True) ''Quota access forbidden for this account''
          else if status = 401 then failed rt None ''Access token expired or invalid''
          else if \<not> (200 \<le> status \<and> status \<le> 299)
            then failed rt None (''API error: '' @ decimal status)
          else
            (case body of
               BodyThrows t \<Rightarrow> failed rt None (messageOf t)
             | Body data \<Rightarrow>
                 (case parseModels rt data of
                    Inl t \<Rightarrow> failed rt None (messageOf t)
                  | Inr ms \<Rightarrow>
                      \<lparr>success = True, models = ms, lastUpdated = dateNow rt,
                       isForbidden = None, error = None\<rparr>)))"

subsection \<open>The claim's vocabulary\<close>

text \<open>
  The words of the claim, written on their own so that the loop body above can be compared
  with them: the field of an object, the first present (neither \<^verbatim>\<open>undefined\<close> nor
  \<^verbatim>\<open>null\<close>) of a list of reads, the quota object taken as \<^verbatim>\<open>quotaInfo\<close> or
  \<^verbatim>\<open>quota_info\<close>, the remaining value read through its three aliases, and the percentage
  as an integer: the product rounded to the nearest integer (ties upwards) and clamped to
  0..100.
\<close>

definition propOf :: "json \<Rightarrow> string \<Rightarrow> json option" where
  "propOf v k = (case v of JObject kvs \<Rightarrow> map_of kvs k | _ \<Rightarrow> None)"

definition firstPresent :: "json option list \<Rightarrow> json option" where
  "firstPresent vs = (case find (\<lambda>v. \<not> nullish v) vs of Some v \<Rightarrow> v | None \<Rightarrow> None)"

definition quotaInfoField :: "json \<Rightarrow> json option" where
  "quotaInfoField modelData =
     (if truthy (propOf modelData ''quotaInfo'') then propOf modelData ''quotaInfo''
      else propOf modelData ''quota_info'')"

definition remainingField :: "json \<Rightarrow> json option" where
  "remainingField quotaInfo =
     firstPresent [propOf quotaInfo ''remainingFraction'', propOf quotaInfo ''remaining_fraction'',
                   propOf quotaInfo ''remaining'']"

fun pctOf :: "jsnum \<Rightarrow> int" where
  "pctOf (Num p) = max 0 (min 100 \<lfloor>p + 1 / 2\<rfloor>)"
| "pctOf PosInf = 100"
| "pctOf NegInf = 0"
| "pctOf NaN = 0"

definition resetTimeField :: "json \<Rightarrow> json" where
  "resetTimeField quotaInfo =
     (case (if truthy (propOf quotaInfo ''resetTime'') then propOf quotaInfo ''resetTime''
            else if truthy (propOf quotaInfo ''reset_time'') then propOf quotaInfo ''reset_time''
            else None) of
        Some v \<Rightarrow> v
      | None \<Rightarrow> JNull)"

definition pushedBy :: "runtime \<Rightarrow> string \<times> json \<Rightarrow> ModelQuota option" where
  "pushedBy rt entry = (case modelQuotaOf rt entry of Inr (Some m) \<Rightarrow> Some m | _ \<Rightarrow> None)"

text \<open>
  A concrete response: an entry read through \<^verbatim>\<open>remainingFraction\<close>, one read through
  \<^verbatim>\<open>quota_info.remaining\<close> after a \<^verbatim>\<open>null\<close> alias and clamped from 150, one whose first
  present alias is a string, one whose value is infinite, and one with no quota object.
\<close>

definition exact_runtime :: runtime where
  "exact_runtime = \<lparr>fl = (\<lambda>p. Some p), typeErrorMessage = ''Cannot read properties of null'',
                     dateNow = 1700000000000\<rparr>"

definition gemini_quota :: json where
  "gemini_quota = JObject [(''remainingFraction'', JNumber (Num 0.734)),
                           (''resetTime'', JString ''2026-01-01T00:00:00Z'')]"

definition gemini_entry :: json where
  "gemini_entry = JObject [(''displayName'', JString ''Gemini 3 Pro''),
                           (''quotaInfo'', gemini_quota)]"

definition text_first_entry :: json where
  "text_first_entry =
     JObject [(''quotaInfo'', JObject [(''remainingFraction'', JString ''0.5''),
                                       (''remaining'', JNumber (Num 0.2))])]"

definition sample_models :: "(string \<times> json) list" where
  "sample_models =
     [(''gemini-3-pro-high'', gemini_entry),
      (''claude-sonnet'',
         JObject [(''quota_info'', JObject [(''remaining_fraction'', JNull),
                                            (''remaining'', JNumber (Num 1.5))])]),
      (''text-first'', text_first_entry),
      (''too-big'', JObject [(''quotaInfo'', JObject [(''remaining'', JNumber PosInf)])]),
      (''no-quota'', JObject [(''displayName'', JString ''Plain'')])]"

definition sample_data :: json where
  "sample_data = JObject [(''models'', JObject sample_models)]"

subsection \<open>Properties of the quota loop\<close>

lemma getProp_propOf: "v \<noteq> JNull \<Longrightarrow> getProp rt v k = Inr (propOf v k)"
  by (cases v) (simp_all add: propOf_def)

lemma truthy_not_null: "truthy (Some v) \<Longrightarrow> v \<noteq> JNull"
  by (cases v) simp_all

lemma js_mul_not_NaN: "js_mul rt a b \<noteq> NaN"
  by (simp add: js_mul_def split: option.splits)

lemma clamp_round:
  "x \<noteq> NaN \<Longrightarrow> Math_max (Num 0) (Math_min (Num 100) (Math_round x)) = Num (of_int (pctOf x))"
  by (cases x) (auto simp add: Math_max_def Math_min_def max_def min_def)

lemma pctOf_range: "0 \<le> pctOf x \<and> pctOf x \<le> 100"
  by (cases x) simp_all

lemma percentageOf_eq: "percentageOf rt r = Num (of_int (pctOf (js_mul rt r 100)))"
  unfolding percentageOf_def by (rule clamp_round) (rule js_mul_not_NaN)

lemma remainingOf_finite:
  "q \<noteq> JNull \<Longrightarrow>
     remainingOf rt q = Inr (Some (JNumber (Num r))) \<longleftrightarrow> remainingField q = Some (JNumber (Num r))"
  by (auto simp add: remainingOf_def remainingField_def firstPresent_def andThen_def getProp_propOf
      elim!: nullish.elims split: if_splits)

lemma remainingOf_total: "q \<noteq> JNull \<Longrightarrow> \<exists>v. remainingOf rt q = Inr v"
  by (simp add: remainingOf_def andThen_def getProp_propOf)

lemma resetTimeOf_total: "q \<noteq> JNull \<Longrightarrow> \<exists>v. resetTimeOf rt q = Inr v"
  by (simp add: resetTimeOf_def andThen_def getProp_propOf)


lemma resetTimeOf_eq: "q \<noteq> JNull \<Longrightarrow> resetTimeOf rt q = Inr (resetTimeField q)"
  by (simp add: resetTimeOf_def resetTimeField_def andThen_def getProp_propOf)

lemma remainingOf_other:
  assumes "q \<noteq> JNull" and "\<forall>r. remainingField q \<noteq> Some (JNumber (Num r))"
  shows "\<exists>v. remainingOf rt q = Inr v \<and> (\<forall>r. v \<noteq> Some (JNumber (Num r)))"
proof -
  obtain v where v: "remainingOf rt q = Inr v"
    using remainingOf_total [OF assms(1)] by blast
  have "v \<noteq> Some (JNumber (Num r))" for r
    using v assms remainingOf_finite [OF assms(1), of rt r] by auto
  with v show ?thesis by blast
qed

lemma modelQuotaOf_push:
  assumes qi: "quotaInfoField modelData = Some q" and tr: "truthy (Some q)"
    and rem: "remainingField q = Some (JNumber (Num r))"
  shows "modelQuotaOf rt (modelId, modelData)
         = Inr (Some \<lparr>name = modelId, displayName = propOf modelData ''displayName'',
                      percentage = percentageOf rt r, resetTime = resetTimeField q\<rparr>)"
proof -
  have md: "modelData \<noteq> JNull"
    using qi by (auto simp add: quotaInfoField_def propOf_def split: if_splits)
  have q: "q \<noteq> JNull"
    using tr by (rule truthy_not_null)
  have sel: "(if truthy (propOf modelData ''quotaInfo'') then Inr (propOf modelData ''quotaInfo'')
              else getProp rt modelData ''quota_info'') = Inr (Some q)"
    using qi md by (auto simp add: quotaInfoField_def getProp_propOf split: if_splits)
  have r: "remainingOf rt q = Inr (Some (JNumber (Num r)))"
    using rem remainingOf_finite [OF q] by simp
  show ?thesis
    by (simp add: modelQuotaOf_def andThen_def getProp_propOf [OF md] sel tr r
        resetTimeOf_eq [OF q])
qed

lemma modelQuotaOf_skip:
  assumes md: "modelData \<noteq> JNull"
    and none: "\<not> (\<exists>q r. quotaInfoField modelData = Some q \<and> truthy (Some q)
                    \<and> remainingField q = Some (JNumber (Num r)))"
  shows "modelQuotaOf rt (modelId, modelData) = Inr None"
proof -
  have sel: "(if truthy (propOf modelData ''quotaInfo'') then Inr (propOf modelData ''quotaInfo'')
              else getProp rt modelData ''quota_info'') = Inr (quotaInfoField modelData)"
    using md by (simp add: quotaInfoField_def getProp_propOf)
  show ?thesis
  proof (cases "quotaInfoField modelData")
    case None
    then show ?thesis
      by (simp add: modelQuotaOf_def andThen_def getProp_propOf [OF md] sel)
  next
    case (Some q)
    show ?thesis
    proof (cases "truthy (Some q)")
      case False
      with Some show ?thesis
        by (simp add: modelQuotaOf_def andThen_def getProp_propOf [OF md] sel)
    next
      case True
      then have q: "q \<noteq> JNull" by (rule truthy_not_null)
      have "\<forall>r. remainingField q \<noteq> Some (JNumber (Num r))"
        using none Some True by blast
      then obtain v where v: "remainingOf rt q = Inr v" "\<forall>r. v \<noteq> Some (JNumber (Num r))"
        using remainingOf_other [OF q] by blast
      have "(case v of Some (JNumber (Num r)) \<Rightarrow> f r | _ \<Rightarrow> Inr None) = Inr None" for f :: "real \<Rightarrow> thrown + ModelQuota option"
        using v(2) by (auto split: option.splits json.splits jsnum.splits)
      then show ?thesis
        using Some True v(1)
        by (simp add: modelQuotaOf_def andThen_def getProp_propOf [OF md] sel)
    qed
  qed
qed

lemma modelQuotaOf_null: "modelQuotaOf rt (modelId, JNull) = Inl (ErrorObject (typeErrorMessage rt))"
  by (simp add: modelQuotaOf_def andThen_def)

lemma modelQuotaOf_range:
  assumes "modelQuotaOf rt entry = Inr (Some m)"
  shows "\<exists>i. percentage m = Num (of_int i) \<and> 0 \<le> i \<and> i \<le> 100"
proof -
  obtain modelId modelData where e: "entry = (modelId, modelData)" by (cases entry)
  have md: "modelData \<noteq> JNull"
    using assms e by (auto simp add: modelQuotaOf_null)
  obtain q r where "quotaInfoField modelData = Some q" "truthy (Some q)"
      "remainingField q = Some (JNumber (Num r))"
    using assms e modelQuotaOf_skip [OF md, of rt modelId] by auto
  then have "percentage m = percentageOf rt r"
    using assms e modelQuotaOf_push [of modelData q r rt modelId] by auto
  then show ?thesis
    using percentageOf_eq [of rt r] pctOf_range [of "js_mul rt r 100"]
    by (intro exI [of _ "pctOf (js_mul rt r 100)"]) simp
qed


lemma modelQuotaOf_total:
  assumes "modelData \<noteq> JNull"
  shows "modelQuotaOf rt (modelId, modelData) = Inr (pushedBy rt (modelId, modelData))"
proof (cases "\<exists>q r. quotaInfoField modelData = Some q \<and> truthy (Some q)
                    \<and> remainingField q = Some (JNumber (Num r))")
  case True
  then obtain q r where "quotaInfoField modelData = Some q" "truthy (Some q)"
      "remainingField q = Some (JNumber (Num r))" by blast
  then show ?thesis
    by (simp add: pushedBy_def modelQuotaOf_push)
next
  case False
  then show ?thesis
    by (simp add: pushedBy_def modelQuotaOf_skip [OF assms])
qed

lemma collect_ok:
  "\<forall>e \<in> set es. snd e \<noteq> JNull \<Longrightarrow>
     collect rt es acc = Inr (acc @ List.map_filter (pushedBy rt) es)"
proof (induction es arbitrary: acc)
  case Nil
  show ?case by (simp add: List.map_filter_simps)
next
  case (Cons e es)
  obtain k md where e: "e = (k, md)" by (cases e)
  have md: "md \<noteq> JNull" using Cons.prems e by simp
  have rest: "\<forall>e \<in> set es. snd e \<noteq> JNull" using Cons.prems by simp
  show ?case
    using Cons.IH [OF rest]
    by (cases "pushedBy rt (k, md)")
       (simp_all add: e modelQuotaOf_total [OF md] List.map_filter_simps)
qed

lemma collect_from:
  "collect rt es acc = Inr ms \<Longrightarrow>
     set ms \<subseteq> set acc \<union> {m. \<exists>e \<in> set es. modelQuotaOf rt e = Inr (Some m)}"
proof (induction es arbitrary: acc)
  case Nil
  then show ?case by auto
next
  case (Cons e es)
  show ?case
  proof (cases "modelQuotaOf rt e")
    case (Inl t)
    with Cons.prems show ?thesis by simp
  next
    case (Inr x)
    show ?thesis
    proof (cases x)
      case None
      with Inr Cons.prems have "collect rt es acc = Inr ms" by simp
      from Cons.IH [OF this] show ?thesis by auto
    next
      case (Some m)
      with Inr Cons.prems have "collect rt es (acc @ [m]) = Inr ms" by simp
      from Cons.IH [OF this] show ?thesis using Inr Some by auto
    qed
  qed
qed

lemma parseModels_from:
  assumes "parseModels rt data = Inr ms" and "m \<in> set ms"
  shows "\<exists>e. modelQuotaOf rt e = Inr (Some m)"
proof -
  from assms obtain v where "collect rt (entries v) [] = Inr ms"
    by (auto simp add: parseModels_def andThen_def split: sum.splits option.splits if_splits)
  from collect_from [OF this] assms(2)
  have "m \<in> {m. \<exists>e \<in> set (entries v). modelQuotaOf rt e = Inr (Some m)}" by auto
  then show ?thesis by blast
qed

lemma fetch_success:
  assumes "success (fetchAvailableModels rt outcome)"
  shows "\<exists>data. parseModels rt data = Inr (models (fetchAvailableModels rt outcome))"
  using assms
  by (auto simp add: fetchAvailableModels_def failed_def
      split: fetch_outcome.splits response_body.splits sum.splits if_splits)

lemma fetch_ok:
  assumes ok: "200 \<le> status" "status \<le> 299"
    and ms: "propOf data ''models'' = Some (JObject kvs)"
    and nn: "\<forall>e \<in> set kvs. snd e \<noteq> JNull"
  shows "fetchAvailableModels rt (Response status (Body data))
         = \<lparr>success = True, models = List.map_filter (pushedBy rt) kvs,
            lastUpdated = dateNow rt, isForbidden = None, error = None\<rparr>"
proof -
  have d: "data \<noteq> JNull" using ms by (auto simp add: propOf_def)
  have "parseModels rt data = Inr (List.map_filter (pushedBy rt) kvs)"
    using collect_ok [OF nn, of rt "[]"]
    by (simp add: parseModels_def andThen_def getProp_propOf [OF d] ms isObjectType_def)
  then show ?thesis
    using ok by (simp add: fetchAvailableModels_def)
qed

lemma sample_eval:
  "List.map_filter (pushedBy exact_runtime) sample_models
   = [\<lparr>name = ''gemini-3-pro-high'', displayName = Some (JString ''Gemini 3 Pro''),
       percentage = Num 73, resetTime = JString ''2026-01-01T00:00:00Z''\<rparr>,
      \<lparr>name = ''claude-sonnet'', displayName = None, percentage = Num 100, resetTime = JNull\<rparr>]"
  by (simp add: sample_models_def gemini_entry_def gemini_quota_def text_first_entry_def
      List.map_filter_simps pushedBy_def modelQuotaOf_def
      andThen_def remainingOf_def resetTimeOf_def percentageOf_def js_mul_def exact_runtime_def
      Math_max_def Math_min_def)

text \<open>
  C9. In a successful fetch every reported percentage is an integer between 0 and 100.
  When the response is OK and no model entry is \<^verbatim>\<open>null\<close>, the fetch succeeds and reports,
  in order, exactly the entries the loop body pushes. The loop body pushes an entry whose
  quota object (\<^verbatim>\<open>quotaInfo\<close>, else \<^verbatim>\<open>quota_info\<close>) is truthy and whose first present
  alias among \<^verbatim>\<open>remainingFraction\<close>, \<^verbatim>\<open>remaining_fraction\<close>, \<^verbatim>\<open>remaining\<close> holds a finite
  number \<open>r\<close>, with the percentage \<open>pctOf\<close> of the double product of \<open>r\<close> and 100 (rounded
  and clamped, an integer in 0..100 for every rounding \<open>fl\<close> of the product); it skips every
  other entry.
\<close>

theorem fetchAvailableModels_percentages:
  "(success (fetchAvailableModels rt outcome) \<longrightarrow>
      (\<forall>m \<in> set (models (fetchAvailableModels rt outcome)).
         \<exists>i. percentage m = Num (of_int i) \<and> 0 \<le> i \<and> i \<le> 100))
   \<and> (200 \<le> status \<and> status \<le> 299 \<and> propOf data ''models'' = Some (JObject kvs)
        \<and> (\<forall>e \<in> set kvs. snd e \<noteq> JNull) \<longrightarrow>
       fetchAvailableModels rt (Response status (Body data))
         = \<lparr>success = True, models = List.map_filter (pushedBy rt) kvs,
            lastUpdated = dateNow rt, isForbidden = None, error = None\<rparr>)
   \<and> (quotaInfoField modelData = Some q \<and> truthy (Some q)
        \<and> remainingField q = Some (JNumber (Num r)) \<longrightarrow>
       pushedBy rt (modelId, modelData)
         = Some \<lparr>name = modelId, displayName = propOf modelData ''displayName'',
                 percentage = Num (of_int (pctOf (js_mul rt r 100))),
                 resetTime = resetTimeField q\<rparr>)
   \<and> (\<not> (\<exists>q r. quotaInfoField otherData = Some q \<and> truthy (Some q)
                \<and> remainingField q = Some (JNumber (Num r))) \<longrightarrow>
       pushedBy rt (otherId, otherData) = None)
   \<and> 0 \<le> pctOf x \<and> pctOf x \<le> 100"
proof -
  have range: "success (fetchAvailableModels rt outcome) \<longrightarrow>
      (\<forall>m \<in> set (models (fetchAvailableModels rt outcome)).
         \<exists>i. percentage m = Num (of_int i) \<and> 0 \<le> i \<and> i \<le> 100)"
  proof (intro impI ballI)
    fix m
    assume s: "success (fetchAvailableModels rt outcome)"
      and m: "m \<in> set (models (fetchAvailableModels rt outcome))"
    from fetch_success [OF s] obtain data
      where "parseModels rt data = Inr (models (fetchAvailableModels rt outcome))" by blast
    from parseModels_from [OF this m] obtain e where "modelQuotaOf rt e = Inr (Some m)" by blast
    then show "\<exists>i. percentage m = Num (of_int i) \<and> 0 \<le> i \<and> i \<le> 100"
      by (rule modelQuotaOf_range)
  qed
  have whole: "200 \<le> status \<and> status \<le> 299 \<and> propOf data ''models'' = Some (JObject kvs)
        \<and> (\<forall>e \<in> set kvs. snd e \<noteq> JNull) \<longrightarrow>
       fetchAvailableModels rt (Response status (Body data))
         = \<lparr>success = True, models = List.map_filter (pushedBy rt) kvs,
            lastUpdated = dateNow rt, isForbidden = None, error = None\<rparr>"
    using fetch_ok [of status data kvs rt] by blast
  have push: "quotaInfoField modelData = Some q \<and> truthy (Some q)
        \<and> remainingField q = Some (JNumber (Num r)) \<longrightarrow>
       pushedBy rt (modelId, modelData)
         = Some \<lparr>name = modelId, displayName = propOf modelData ''displayName'',
                 percentage = Num (of_int (pctOf (js_mul rt r 100))),
                 resetTime = resetTimeField q\<rparr>"
    by (simp add: pushedBy_def modelQuotaOf_push percentageOf_eq)
  have skip: "\<not> (\<exists>q r. quotaInfoField otherData = Some q \<and> truthy (Some q)
                \<and> remainingField q = Some (JNumber (Num r))) \<longrightarrow>
       pushedBy rt (otherId, otherData) = None"
  proof (cases "otherData = JNull")
    case True
    then show ?thesis by (simp add: pushedBy_def modelQuotaOf_null)
  next
    case False
    then show ?thesis
      using modelQuotaOf_skip [OF False, of rt otherId] by (auto simp add: pushedBy_def)
  qed
  from range whole push skip pctOf_range [of x] show ?thesis by blast
qed

theorem fetchAvailableModels_percentages_witness:
  "fetchAvailableModels exact_runtime (Response 200 (Body sample_data))
     = \<lparr>success = True,
        models =
          [\<lparr>name = ''gemini-3-pro-high'', displayName = Some (JString ''Gemini 3 Pro''),
            percentage = Num 73, resetTime = JString ''2026-01-01T00:00:00Z''\<rparr>,
           \<lparr>name = ''claude-sonnet'', displayName = None, percentage = Num 100,
            resetTime = JNull\<rparr>],
        lastUpdated = 1700000000000, isForbidden = None, error = None\<rparr>
   \<and> quotaInfoField gemini_entry = Some gemini_quota
   \<and> truthy (Some gemini_quota)
   \<and> remainingField gemini_quota = Some (JNumber (Num 0.734))
   \<and> pushedBy exact_runtime (''gemini-3-pro-high'', gemini_entry)
       = Some \<lparr>name = ''gemini-3-pro-high'', displayName = Some (JString ''Gemini 3 Pro''),
               percentage = Num 73, resetTime = JString ''2026-01-01T00:00:00Z''\<rparr>
   \<and> remainingField (JObject [(''remainingFraction'', JString ''0.5''),
                              (''remaining'', JNumber (Num 0.2))]) = Some (JString ''0.5'')
   \<and> pushedBy exact_runtime (''text-first'', text_first_entry) = None
   \<and> pctOf (Num 150) = 100"
proof -
  let ?out = "Response 200 (Body sample_data)"
  note inst = fetchAvailableModels_percentages [of exact_runtime ?out 200 sample_data
      sample_models gemini_entry gemini_quota "0.734" "''gemini-3-pro-high''"
      text_first_entry "''text-first''" "Num 150"]
  have ok: "(200::nat) \<le> 200 \<and> (200::nat) \<le> 299
      \<and> propOf sample_data ''models'' = Some (JObject sample_models)
      \<and> (\<forall>e \<in> set sample_models. snd e \<noteq> JNull)"
    by (simp add: sample_data_def propOf_def sample_models_def gemini_entry_def
        text_first_entry_def)
  have whole: "fetchAvailableModels exact_runtime ?out
      = \<lparr>success = True, models = List.map_filter (pushedBy exact_runtime) sample_models,
         lastUpdated = dateNow exact_runtime, isForbidden = None, error = None\<rparr>"
    using inst ok by blast
  have qi: "quotaInfoField gemini_entry = Some gemini_quota"
    and tr: "truthy (Some gemini_quota)"
    and rem: "remainingField gemini_quota = Some (JNumber (Num 0.734))"
    by (simp_all add: quotaInfoField_def gemini_entry_def gemini_quota_def propOf_def
        remainingField_def firstPresent_def)
  have pushed: "pushedBy exact_runtime (''gemini-3-pro-high'', gemini_entry)
       = Some \<lparr>name = ''gemini-3-pro-high'',
               displayName = propOf gemini_entry ''displayName'',
               percentage = Num (of_int (pctOf (js_mul exact_runtime 0.734 100))),
               resetTime = resetTimeField gemini_quota\<rparr>"
    using inst qi tr rem by blast
  have vals: "propOf gemini_entry ''displayName'' = Some (JString ''Gemini 3 Pro'')"
    "pctOf (js_mul exact_runtime 0.734 100) = 73"
    "resetTimeField gemini_quota = JString ''2026-01-01T00:00:00Z''"
    by (simp_all add: gemini_entry_def gemini_quota_def propOf_def js_mul_def
        exact_runtime_def resetTimeField_def)
  have first: "remainingField (JObject [(''remainingFraction'', JString ''0.5''),
                              (''remaining'', JNumber (Num 0.2))]) = Some (JString ''0.5'')"
    by (simp add: remainingField_def firstPresent_def propOf_def)
  have none: "\<not> (\<exists>q r. quotaInfoField text_first_entry = Some q \<and> truthy (Some q)
                \<and> remainingField q = Some (JNumber (Num r)))"
    using first by (simp add: quotaInfoField_def text_first_entry_def propOf_def)
  have skipped: "pushedBy exact_runtime (''text-first'', text_first_entry) = None"
    using inst none by blast
  have "pctOf (Num 150) = 100" by simp
  with whole sample_eval qi tr rem pushed vals first skipped show ?thesis
    by (simp add: exact_runtime_def)
qed

section \<open>SSE Parser of the GLMT proxy (spec sections 3 and 4.1)\<close>

text \<open>
  Modelled from the spec: the SSE Parser (\<^verbatim>\<open>bin/glmt/sse-parser.js\<close>, named in
  \<^verbatim>\<open>src/docs/code-standards.md\<close>) is not among the sources. The definitions of this
  section follow sections 3 and 4.1 of the specification: \<open>feed\<close> takes the next chunk of
  bytes and returns the events completed by it; an event is complete when a blank line is
  seen; the incomplete line is buffered; the parser fails with \<open>StreamTooLarge\<close> when the
  accumulated unterminated data, the bytes of the frame whose blank line has not been seen,
  exceeds 1 MB; empty keep-alive lines are ignored; a \<^verbatim>\<open>[DONE]\<close> payload is the sentinel
  of a normal end. Lines are read as the SSE grammar has them: a line ends at LF (a CR
  before it is dropped), a line starting with a colon is a comment, the field name stands
  before the first colon and one space after the colon is not part of the value,
  \<^verbatim>\<open>data\<close> lines are joined by LF, \<^verbatim>\<open>event\<close> names the event, other fields are ignored.
\<close>

definition LF :: char where
  "LF = CHR 0x0A"

definition CR :: char where
  "CR = CHR 0x0D"

text \<open>Modelled from the spec: the 1 MB ceiling of the SSE frame buffer.\<close>

definition MAX_SSE_BUFFER :: nat where
  "MAX_SSE_BUFFER = 1048576"

datatype stream_error = StreamTooLarge

text \<open>Modelled from the spec: an SSE event is an optional event name and a data payload.\<close>

record SSEEvent =
  eventName :: "string option"
  payload :: string

text \<open>
  Modelled from the spec: one parser instance per request. It holds the incomplete line,
  the fields of the event whose blank line has not been seen yet, and the number of bytes
  of the complete lines received since the last blank line (\<open>held\<close>): \<open>held\<close> and the
  incomplete line together are the unterminated frame.
\<close>

record pending_event =
  pendingName :: "string option"
  pendingData :: "string list"

record SSEParser =
  buffer :: string
  pending :: pending_event
  held :: nat

definition noPending :: pending_event where
  "noPending = \<lparr>pendingName = None, pendingData = []\<rparr>"

definition newParser :: SSEParser where
  "newParser = \<lparr>buffer = [], pending = noPending, held = 0\<rparr>"

text \<open>
  Modelled from the spec: the text cut at every LF. The last piece is the unterminated
  rest (empty when the text ends with LF), the pieces before it are the complete lines.
\<close>

definition consHead :: "char \<Rightarrow> string list \<Rightarrow> string list" where
  "consHead c ps = (case ps of [] \<Rightarrow> [[c]] | p # rest \<Rightarrow> (c # p) # rest)"

fun pieces :: "string \<Rightarrow> string list" where
  "pieces [] = [[]]"
| "pieces (c # cs) = (if c = LF then [] # pieces cs else consHead c (pieces cs))"

definition stripCR :: "string \<Rightarrow> string" where
  "stripCR line = (if line \<noteq> [] \<and> last line = CR then butlast line else line)"

definition splitField :: "string \<Rightarrow> string \<times> string" where
  "splitField line =
     (let field = takeWhile (\<lambda>c. c \<noteq> CHR '':'') line;
          rest = drop (length field) line
      in case rest of
           [] \<Rightarrow> (field, [])
         | colon # v \<Rightarrow>
             (field, case v of [] \<Rightarrow> [] | c # v' \<Rightarrow> if c = CHR '' '' then v' else v))"

fun joinLines :: "string list \<Rightarrow> string" where
  "joinLines [] = []"
| "joinLines [l] = l"
| "joinLines (l # ls) = l @ LF # joinLines ls"

text \<open>
  Modelled from the spec: one complete line. A blank line completes the pending event, or
  is ignored when nothing is pending (a keep-alive).
\<close>

definition processLine :: "pending_event \<Rightarrow> string \<Rightarrow> SSEEvent option \<times> pending_event" where
  "processLine st raw =
     (let line = stripCR raw in
      if line = [] then
        (if pendingData st = [] then (None, noPending)
         else (Some \<lparr>eventName = pendingName st, payload = joinLines (pendingData st)\<rparr>,
               noPending))
      else if hd line = CHR '':'' then (None, st)
      else
        (let fv = splitField line in
         if fst fv = ''data'' then (None, st\<lparr>pendingData := pendingData st @ [snd fv]\<rparr>)
         else if fst fv = ''event'' then (None, st\<lparr>pendingName := Some (snd fv)\<rparr>)
         else (None, st)))"

fun processLines :: "pending_event \<Rightarrow> string list \<Rightarrow> SSEEvent list \<times> pending_event" where
  "processLines st [] = ([], st)"
| "processLines st (l # ls) =
     (let r = processLine st l;
          rs = processLines (snd r) ls
      in ((case fst r of None \<Rightarrow> [] | Some ev \<Rightarrow> [ev]) @ fst rs, snd rs))"

text \<open>
  Modelled from the spec: the size of the unterminated frame while one complete line
  arrives. With \<open>h\<close> bytes held, the line raises the unterminated data to \<open>peak h raw\<close>
  bytes (its own bytes, and its LF unless the line is the blank line that ends the frame);
  after it \<open>heldNext h raw\<close> bytes are held: none after a blank line.
\<close>

definition peak :: "nat \<Rightarrow> string \<Rightarrow> nat" where
  "peak h raw = h + length raw + (if stripCR raw = [] then 0 else 1)"

definition heldNext :: "nat \<Rightarrow> string \<Rightarrow> nat" where
  "heldNext h raw = (if stripCR raw = [] then 0 else h + length raw + 1)"

fun heldAfter :: "nat \<Rightarrow> string list \<Rightarrow> nat" where
  "heldAfter h [] = h"
| "heldAfter h (l # ls) = heldAfter (heldNext h l) ls"

fun linesFit :: "nat \<Rightarrow> string list \<Rightarrow> bool" where
  "linesFit h [] = True"
| "linesFit h (l # ls) = (peak h l \<le> MAX_SSE_BUFFER \<and> linesFit (heldNext h l) ls)"

text \<open>
  Modelled from the spec: the decoding of one chunk, before the size check. The chunk is
  appended to the buffered incomplete line, the complete lines are processed in order and
  the unterminated rest is buffered.
\<close>

definition parse :: "SSEParser \<Rightarrow> string \<Rightarrow> SSEEvent list \<times> SSEParser" where
  "parse p chunk =
     (let ps = pieces (buffer p @ chunk);
          r = processLines (pending p) (butlast ps)
      in (fst r, \<lparr>buffer = last ps, pending = snd r,
                  held = heldAfter (held p) (butlast ps)\<rparr>))"

text \<open>
  Modelled from the spec: the size check of one call. The spec names what is measured, the
  accumulated unterminated data, and not the moment of measuring; here it is measured
  whenever it grows: the unterminated data stays within 1 MB while every line of the call
  arrives, and with the incomplete line left at its end. Bytes of frames already ended by
  their blank line are not counted, in whichever chunk they arrived.
\<close>

definition fits :: "SSEParser \<Rightarrow> string \<Rightarrow> bool" where
  "fits p chunk =
     (let ps = pieces (buffer p @ chunk) in
      linesFit (held p) (butlast ps)
      \<and> heldAfter (held p) (butlast ps) + length (last ps) \<le> MAX_SSE_BUFFER)"

text \<open>
  Modelled from the spec: \<open>feed(bytes) -> sequence of SSEEvent\<close>, failing with
  \<open>StreamTooLarge\<close> when the accumulated unterminated buffer exceeds 1 MB.
\<close>

definition feed :: "SSEParser \<Rightarrow> string \<Rightarrow> stream_error + (SSEEvent list \<times> SSEParser)" where
  "feed p chunk = (if fits p chunk then Inr (parse p chunk) else Inl StreamTooLarge)"

text \<open>
  Modelled from the spec: the chunks fed one at a time to one parser instance, in order;
  the events of all calls in order, or the first failure.
\<close>

fun feedAll :: "SSEParser \<Rightarrow> string list \<Rightarrow> stream_error + (SSEEvent list \<times> SSEParser)" where
  "feedAll p [] = Inr ([], p)"
| "feedAll p (chunk # chunks) =
     (case feed p chunk of
        Inl e \<Rightarrow> Inl e
      | Inr r \<Rightarrow>
          (case feedAll (snd r) chunks of
             Inl e \<Rightarrow> Inl e
           | Inr rs \<Rightarrow> Inr (fst r @ fst rs, snd rs)))"

text \<open>The same chunks decoded one at a time with no size check.\<close>

fun decodeAll :: "SSEParser \<Rightarrow> string list \<Rightarrow> SSEEvent list \<times> SSEParser" where
  "decodeAll p [] = ([], p)"
| "decodeAll p (chunk # chunks) =
     (let r = parse p chunk;
          rs = decodeAll (snd r) chunks
      in (fst r @ fst rs, snd rs))"

text \<open>Modelled from the spec: the \<^verbatim>\<open>[DONE]\<close> sentinel, a normal end of the stream.\<close>

definition isDone :: "SSEEvent \<Rightarrow> bool" where
  "isDone ev = (payload ev = ''[DONE]'')"

text \<open>
  Modelled from the spec: a valid SSE byte stream for this parser. Every text is a sequence
  of lines of the grammar (unknown fields are ignored); what makes a stream valid is that
  at no point of it more than 1 MB is unterminated: no frame of it, complete or not,
  exceeds the frame buffer.
\<close>

definition validStream :: "string \<Rightarrow> bool" where
  "validStream s =
     (linesFit 0 (butlast (pieces s))
      \<and> heldAfter 0 (butlast (pieces s)) + length (last (pieces s)) \<le> MAX_SSE_BUFFER)"

text \<open>The facts about the data line \<open>L\<close> that carries the delta \<open>d\<close>.\<close>

definition dataLine :: "string \<Rightarrow> string \<Rightarrow> bool" where
  "dataLine L d \<longleftrightarrow>
     LF \<notin> set L \<and> stripCR L \<noteq> [] \<and> length L = length d + 6
     \<and> processLine noPending L = (None, \<lparr>pendingName = None, pendingData = [d]\<rparr>)"

text \<open>
  A concrete stream: one JSON delta on one data line, cut into three chunks inside the
  payload and between the two line ends.
\<close>

definition delta_chunks :: "string list" where
  "delta_chunks = [''data: [1,2'', ''2,3]'' @ [LF], [LF]]"

definition delta_event :: SSEEvent where
  "delta_event = \<lparr>eventName = None, payload = ''[1,22,3]''\<rparr>"

subsection \<open>Properties of the SSE Parser\<close>

lemma pieces_nonempty [simp]: "pieces s \<noteq> []"
  by (induction s) (simp_all add: consHead_def split: list.splits)

lemma pieces_append:
  "pieces (a @ b) = butlast (pieces a) @ pieces (last (pieces a) @ b)"
proof (induction a)
  case Nil
  show ?case by simp
next
  case (Cons c a)
  show ?case
  proof (cases "c = LF")
    case True
    then show ?thesis using Cons.IH by simp
  next
    case False
    obtain p ps where pa: "pieces a = p # ps"
      using pieces_nonempty [of a] by (cases "pieces a") auto
    show ?thesis
    proof (cases ps)
      case Nil
      with pa False Cons.IH show ?thesis by (simp add: consHead_def)
    next
      case (Cons q qs)
      with pa False Cons.IH show ?thesis by (simp add: consHead_def)
    qed
  qed
qed

lemma last_pieces_noLF: "LF \<notin> set (last (pieces s))"
proof (induction s)
  case Nil
  show ?case by simp
next
  case (Cons c s)
  then show ?case by (cases "pieces s") (auto simp add: consHead_def)
qed

lemma pieces_noLF: "LF \<notin> set r \<Longrightarrow> pieces (r @ t) = (r @ hd (pieces t)) # tl (pieces t)"
proof (induction r)
  case Nil
  show ?case by simp
next
  case (Cons c r)
  then show ?case by (auto simp add: consHead_def)
qed

lemma pieces_noLF_single: "LF \<notin> set r \<Longrightarrow> pieces r = [r]"
  using pieces_noLF [of r "[]"] by simp

lemma processLines_append:
  "processLines st (xs @ ys)
   = (fst (processLines st xs) @ fst (processLines (snd (processLines st xs)) ys),
      snd (processLines (snd (processLines st xs)) ys))"
  by (induction xs arbitrary: st) (simp_all add: Let_def)

lemma heldAfter_append: "heldAfter h (xs @ ys) = heldAfter (heldAfter h xs) ys"
  by (induction xs arbitrary: h) simp_all

lemma linesFit_append:
  "linesFit h (xs @ ys) \<longleftrightarrow> linesFit h xs \<and> linesFit (heldAfter h xs) ys"
  by (induction xs arbitrary: h) auto

lemma pieces_split:
  "butlast (pieces (x @ a @ b))
     = butlast (pieces (x @ a)) @ butlast (pieces (last (pieces (x @ a)) @ b))"
  "last (pieces (x @ a @ b)) = last (pieces (last (pieces (x @ a)) @ b))"
proof -
  have split: "pieces (x @ a @ b)
      = butlast (pieces (x @ a)) @ pieces (last (pieces (x @ a)) @ b)"
    using pieces_append [of "x @ a" b] by simp
  show "butlast (pieces (x @ a @ b))
     = butlast (pieces (x @ a)) @ butlast (pieces (last (pieces (x @ a)) @ b))"
    unfolding split by (simp add: butlast_append)
  show "last (pieces (x @ a @ b)) = last (pieces (last (pieces (x @ a)) @ b))"
    unfolding split by simp
qed

lemma parse_append:
  "parse p (a @ b)
   = (fst (parse p a) @ fst (parse (snd (parse p a)) b), snd (parse (snd (parse p a)) b))"
  by (simp add: parse_def Let_def pieces_split processLines_append heldAfter_append)

lemma parse_Nil: "LF \<notin> set (buffer p) \<Longrightarrow> parse p [] = ([], p)"
  by (simp add: parse_def Let_def pieces_noLF_single)

lemma buffer_parse_noLF: "LF \<notin> set (buffer (snd (parse p x)))"
  by (simp add: parse_def Let_def last_pieces_noLF)

text \<open>
  The size of the unterminated data over a line that starts with the buffered rest is at
  least the size reached with the rest alone.
\<close>

lemma rest_within:
  assumes nl: "LF \<notin> set r"
    and lines: "linesFit h (butlast (pieces (r @ b)))"
    and rest: "heldAfter h (butlast (pieces (r @ b))) + length (last (pieces (r @ b)))
               \<le> MAX_SSE_BUFFER"
  shows "h + length r \<le> MAX_SSE_BUFFER"
proof -
  have ps: "pieces (r @ b) = (r @ hd (pieces b)) # tl (pieces b)"
    using nl by (rule pieces_noLF)
  show ?thesis
  proof (cases "tl (pieces b) = []")
    case True
    with rest ps show ?thesis by simp
  next
    case False
    with lines ps have "peak h (r @ hd (pieces b)) \<le> MAX_SSE_BUFFER" by simp
    then show ?thesis by (simp add: peak_def)
  qed
qed

lemma fits_append: "fits p (a @ b) \<longleftrightarrow> fits p a \<and> fits (snd (parse p a)) b"
proof -
  let ?pa = "pieces (buffer p @ a)"
  let ?h = "heldAfter (held p) (butlast ?pa)"
  let ?pb = "pieces (last ?pa @ b)"
  have whole: "fits p (a @ b) \<longleftrightarrow>
      linesFit (held p) (butlast ?pa) \<and> linesFit ?h (butlast ?pb)
      \<and> heldAfter ?h (butlast ?pb) + length (last ?pb) \<le> MAX_SSE_BUFFER"
    by (simp add: fits_def Let_def pieces_split linesFit_append heldAfter_append)
  have first: "fits p a \<longleftrightarrow>
      linesFit (held p) (butlast ?pa) \<and> ?h + length (last ?pa) \<le> MAX_SSE_BUFFER"
    by (simp add: fits_def Let_def)
  have second: "fits (snd (parse p a)) b \<longleftrightarrow>
      linesFit ?h (butlast ?pb)
      \<and> heldAfter ?h (butlast ?pb) + length (last ?pb) \<le> MAX_SSE_BUFFER"
    by (simp add: fits_def parse_def Let_def)
  have mid: "linesFit ?h (butlast ?pb)
      \<and> heldAfter ?h (butlast ?pb) + length (last ?pb) \<le> MAX_SSE_BUFFER
      \<Longrightarrow> ?h + length (last ?pa) \<le> MAX_SSE_BUFFER"
    using rest_within [OF last_pieces_noLF, of ?h "buffer p @ a" b] by blast
  show ?thesis
    unfolding whole first second using mid by blast
qed

lemma fits_Nil:
  "LF \<notin> set (buffer p) \<Longrightarrow> fits p [] \<longleftrightarrow> held p + length (buffer p) \<le> MAX_SSE_BUFFER"
  by (simp add: fits_def Let_def pieces_noLF_single)

lemma fits_state:
  "fits p c \<Longrightarrow>
     held (snd (parse p c)) + length (buffer (snd (parse p c))) \<le> MAX_SSE_BUFFER"
  by (simp add: fits_def parse_def Let_def)

lemma feedAll_feed:
  "LF \<notin> set (buffer p) \<Longrightarrow> held p + length (buffer p) \<le> MAX_SSE_BUFFER \<Longrightarrow>
     feedAll p chunks = feed p (concat chunks)"
proof (induction chunks arbitrary: p)
  case Nil
  then show ?case by (simp add: feed_def fits_Nil parse_Nil)
next
  case (Cons c cs)
  let ?p1 = "snd (parse p c)"
  show ?case
  proof (cases "fits p c")
    case False
    then show ?thesis by (simp add: feed_def fits_append)
  next
    case True
    have nl: "LF \<notin> set (buffer ?p1)" by (rule buffer_parse_noLF)
    have sz: "held ?p1 + length (buffer ?p1) \<le> MAX_SSE_BUFFER"
      using True by (rule fits_state)
    have ih: "feedAll ?p1 cs = feed ?p1 (concat cs)"
      using nl sz by (rule Cons.IH)
    show ?thesis
      using True ih parse_append [of p c "concat cs"]
      by (simp add: feed_def fits_append)
  qed
qed

lemma decodeAll_parse:
  "LF \<notin> set (buffer p) \<Longrightarrow> decodeAll p chunks = parse p (concat chunks)"
proof (induction chunks arbitrary: p)
  case Nil
  then show ?case by (simp add: parse_Nil)
next
  case (Cons c cs)
  have "decodeAll (snd (parse p c)) cs = parse (snd (parse p c)) (concat cs)"
    using buffer_parse_noLF by (rule Cons.IH)
  then show ?case
    using parse_append [of p c "concat cs"] by (simp add: Let_def)
qed

lemma feed_valid: "feed newParser s = Inr (parse newParser s) \<longleftrightarrow> validStream s"
  by (simp add: feed_def fits_def validStream_def newParser_def Let_def)

lemma feed_Inr: "feed p c = Inr r \<Longrightarrow> r = parse p c"
  by (simp add: feed_def split: if_splits)

lemma data_line_noLF: "LF \<notin> set d \<Longrightarrow> LF \<notin> set (''data: '' @ d)"
  by (simp add: LF_def)

lemma stripCR_data:
  assumes "CR \<notin> set d"
  shows "stripCR (''data: '' @ d) = ''data: '' @ d"
proof -
  have "last (''data: '' @ d) \<noteq> CR"
  proof (cases "d = []")
    case True
    then show ?thesis by (simp add: CR_def)
  next
    case False
    then have "last d \<in> set d" by (rule last_in_set)
    with assms have "last d \<noteq> CR" by metis
    with False show ?thesis by simp
  qed
  then show ?thesis by (simp add: stripCR_def)
qed

lemma processLine_data:
  assumes "CR \<notin> set d"
  shows "processLine st (''data: '' @ d) = (None, st\<lparr>pendingData := pendingData st @ [d]\<rparr>)"
proof -
  have "splitField (''data: '' @ d) = (''data'', d)"
    by (simp add: splitField_def)
  then show ?thesis
    using stripCR_data [OF assms] by (simp add: processLine_def Let_def)
qed

lemma processLine_blank:
  "processLine \<lparr>pendingName = n, pendingData = [d]\<rparr> []
   = (Some \<lparr>eventName = n, payload = d\<rparr>, noPending)"
  by (simp add: processLine_def stripCR_def)

lemma dataLine_intro:
  assumes "LF \<notin> set d" and "CR \<notin> set d"
  shows "dataLine (''data: '' @ d) d"
proof -
  have "processLine noPending (''data: '' @ d)
        = (None, \<lparr>pendingName = None, pendingData = [d]\<rparr>)"
    using processLine_data [OF assms(2), of noPending] by (simp add: noPending_def)
  moreover have "stripCR (''data: '' @ d) \<noteq> []"
    using stripCR_data [OF assms(2)] by simp
  moreover have "length (''data: '' @ d) = length d + 6" by simp
  ultimately show ?thesis
    unfolding dataLine_def using data_line_noLF [OF assms(1)] by blast
qed

lemma pieces_frame:
  assumes "dataLine L d"
  shows "pieces (L @ [LF, LF]) = [L, [], []]" and "pieces (L @ [LF]) = [L, []]"
proof -
  have nl: "LF \<notin> set L" using assms by (simp add: dataLine_def)
  show "pieces (L @ [LF, LF]) = [L, [], []]"
    using pieces_noLF [OF nl, of "[LF, LF]"] by simp
  show "pieces (L @ [LF]) = [L, []]"
    using pieces_noLF [OF nl, of "[LF]"] by simp
qed

lemma lines_frame:
  assumes "dataLine L d"
  shows "processLines noPending [L, []] = ([\<lparr>eventName = None, payload = d\<rparr>], noPending)"
    and "fst (processLines noPending [L]) = []"
proof -
  have ln: "processLine noPending L = (None, \<lparr>pendingName = None, pendingData = [d]\<rparr>)"
    using assms by (simp add: dataLine_def)
  show "processLines noPending [L, []] = ([\<lparr>eventName = None, payload = d\<rparr>], noPending)"
    by (simp add: Let_def ln processLine_blank)
  show "fst (processLines noPending [L]) = []"
    by (simp add: Let_def ln)
qed

lemma held_frame:
  assumes "dataLine L d"
  shows "heldAfter 0 [L, []] = 0"
    and "linesFit 0 [L, []] \<longleftrightarrow> length d + 7 \<le> MAX_SSE_BUFFER"
    and "linesFit 0 [L] \<longleftrightarrow> length d + 7 \<le> MAX_SSE_BUFFER"
proof -
  have s: "stripCR L \<noteq> []" and l: "length L = length d + 6"
    using assms by (simp_all add: dataLine_def)
  have b: "stripCR [] = []" by (simp add: stripCR_def)
  show "heldAfter 0 [L, []] = 0"
    by (simp add: heldNext_def b)
  show "linesFit 0 [L, []] \<longleftrightarrow> length d + 7 \<le> MAX_SSE_BUFFER"
    using s l by (auto simp add: peak_def heldNext_def b)
  show "linesFit 0 [L] \<longleftrightarrow> length d + 7 \<le> MAX_SSE_BUFFER"
    using s l by (auto simp add: peak_def)
qed

lemma feed_frame_line:
  assumes L: "dataLine L d" and len: "length d + 7 \<le> MAX_SSE_BUFFER"
  shows "feed newParser (L @ [LF, LF]) = Inr ([\<lparr>eventName = None, payload = d\<rparr>], newParser)"
proof -
  have ps: "pieces (buffer newParser @ L @ [LF, LF]) = [L, [], []]"
    using pieces_frame(1) [OF L] by (simp add: newParser_def)
  have p: "parse newParser (L @ [LF, LF])
           = ([\<lparr>eventName = None, payload = d\<rparr>], newParser)"
    unfolding parse_def Let_def ps
    by (simp add: newParser_def lines_frame(1) [OF L] held_frame(1) [OF L]
        del: processLines.simps heldAfter.simps)
  have f: "fits newParser (L @ [LF, LF])"
    unfolding fits_def Let_def ps
    using len by (simp add: newParser_def held_frame(1) [OF L] held_frame(2) [OF L]
        del: linesFit.simps heldAfter.simps)
  from p f show ?thesis by (simp add: feed_def)
qed

lemma feed_frame:
  assumes "LF \<notin> set d" and "CR \<notin> set d" and "length d + 7 \<le> MAX_SSE_BUFFER"
  shows "feed newParser (''data: '' @ d @ [LF, LF])
         = Inr ([\<lparr>eventName = None, payload = d\<rparr>], newParser)"
  using feed_frame_line [OF dataLine_intro [OF assms(1,2)] assms(3)] by simp

text \<open>A terminated data line is part of the unterminated frame until its blank line.\<close>

lemma feed_oversized_line:
  assumes L: "dataLine L d" and big: "MAX_SSE_BUFFER < length d + 7"
  shows "feed newParser (L @ [LF]) = Inl StreamTooLarge"
proof -
  have ps: "pieces (buffer newParser @ L @ [LF]) = [L, []]"
    using pieces_frame(2) [OF L] by (simp add: newParser_def)
  have "\<not> fits newParser (L @ [LF])"
    unfolding fits_def Let_def ps
    using big by (simp add: newParser_def held_frame(3) [OF L] del: linesFit.simps)
  then show ?thesis by (simp add: feed_def)
qed

lemma parse_prefix_line:
  assumes L: "dataLine L d" and x: "x @ y = L @ [LF]"
  shows "fst (parse newParser x) = []"
proof (cases "y = []")
  case True
  then have xe: "x = L @ [LF]" using x by simp
  have ps: "pieces (buffer newParser @ x) = [L, []]"
    unfolding xe using pieces_frame(2) [OF L] by (simp add: newParser_def)
  show ?thesis
    unfolding parse_def Let_def ps
    by (simp add: newParser_def lines_frame(2) [OF L] del: processLines.simps)
next
  case False
  then obtain y' where y: "y = y' @ [LF]"
    using x by (cases y rule: rev_cases) auto
  then have xy: "x @ y' = L" using x by simp
  have "LF \<notin> set (x @ y')" unfolding xy using L by (simp add: dataLine_def)
  then have "LF \<notin> set x" by simp
  then have "pieces (buffer newParser @ x) = [x]"
    by (simp add: newParser_def pieces_noLF_single)
  then show ?thesis by (simp add: parse_def Let_def)
qed

lemma parse_prefix:
  assumes "LF \<notin> set d" and "CR \<notin> set d" and "x @ y = ''data: '' @ d @ [LF]"
  shows "fst (parse newParser x) = []"
  using parse_prefix_line [OF dataLine_intro [OF assms(1,2)], of x y] assms(3) by simp

lemma three_chunks:
  assumes d: "LF \<notin> set d" "CR \<notin> set d" and len: "length d + 7 \<le> MAX_SSE_BUFFER"
    and split: "c1 @ c2 @ c3 = ''data: '' @ d @ [LF, LF]" and c3: "c3 \<noteq> []"
  shows "\<exists>p1 p2. feed newParser c1 = Inr ([], p1) \<and> feed p1 c2 = Inr ([], p2)
           \<and> feed p2 c3 = Inr ([\<lparr>eventName = None, payload = d\<rparr>], newParser)"
proof -
  obtain c3' where c3': "c3 = c3' @ [LF]"
    using split c3 by (cases c3 rule: rev_cases) auto
  have pre: "c1 @ c2 @ c3' = ''data: '' @ d @ [LF]"
    using split unfolding c3' by simp
  have fresh: "LF \<notin> set (buffer newParser)"
      "held newParser + length (buffer newParser) \<le> MAX_SSE_BUFFER"
    by (simp_all add: newParser_def)
  have "feedAll newParser [c1, c2, c3] = feed newParser (concat [c1, c2, c3])"
    using fresh by (rule feedAll_feed)
  also have "\<dots> = Inr ([\<lparr>eventName = None, payload = d\<rparr>], newParser)"
    using feed_frame [OF d len] split by simp
  finally obtain r1 r2 r3 where f1: "feed newParser c1 = Inr r1"
      and f2: "feed (snd r1) c2 = Inr r2" and f3: "feed (snd r2) c3 = Inr r3"
      and ev: "fst r1 @ fst r2 @ fst r3 = [\<lparr>eventName = None, payload = d\<rparr>]"
      and fin: "snd r3 = newParser"
    by (auto split: sum.splits)
  have r1: "r1 = parse newParser c1" using f1 by (rule feed_Inr)
  have r2: "r2 = parse (snd r1) c2" using f2 by (rule feed_Inr)
  have e1: "fst r1 = []"
    unfolding r1 using parse_prefix [OF d, of c1 "c2 @ c3'"] pre by simp
  have "fst (parse newParser (c1 @ c2)) = []"
    using parse_prefix [OF d, of "c1 @ c2" c3'] pre by simp
  then have e2: "fst r2 = []"
    unfolding r2 r1 using parse_append [of newParser c1 c2] by simp
  have e3: "fst r3 = [\<lparr>eventName = None, payload = d\<rparr>]"
    using ev e1 e2 by simp
  have "feed newParser c1 = Inr ([], snd r1)" using f1 e1 by (simp add: prod_eq_iff)
  moreover have "feed (snd r1) c2 = Inr ([], snd r2)" using f2 e2 by (simp add: prod_eq_iff)
  moreover have "feed (snd r2) c3 = Inr ([\<lparr>eventName = None, payload = d\<rparr>], newParser)"
    using f3 e3 fin by (simp add: prod_eq_iff)
  ultimately show ?thesis by blast
qed

lemmas sse_eval = feed_def fits_def parse_def Let_def newParser_def noPending_def consHead_def
  processLine_def stripCR_def splitField_def peak_def heldNext_def MAX_SSE_BUFFER_def
  LF_def CR_def



end
